theory Spec2Isabelle
  imports Main "HOL-Library.Word"
begin

unbundle bit_operations_syntax

section \<open>Bytes and the JPEG header markers\<close>

type_synonym byte = "8 word"

text \<open>The package-level marker tables of jpegutil.go.\<close>

definition soi :: "byte list" where
  "soi = [0xFF, 0xD8]"

definition app1 :: "byte list" where
  "app1 = [0xFF, 0xE1]"

definition exif :: "byte list" where
  "exif = [0x45, 0x78, 0x69, 0x66, 0x00, 0x00]"

definition tiff :: "byte list" where
  "tiff = [0x4D, 0x4D, 0x00, 0x2A, 0x00, 0x00, 0x00, 0x08]"

definition ifd0Next :: "byte list" where
  "ifd0Next = [0x00, 0x00, 0x00, 0x00]"

definition dqt :: "byte list" where
  "dqt = [0xFF, 0xDB]"

definition segPad :: "byte list" where
  "segPad = [0x00, 0x00]"

definition eoi :: "byte list" where
  "eoi = [0xFF, 0xD9]"

section \<open>Errors\<close>

text \<open>
  Every error value the package can return, and the panic of \<open>scratch.bytes\<close>.
  \<open>EOF\<close> is io.EOF as returned by a read at the end of the stream and
  \<open>ErrNegativePosition\<close> is the error of a seek before the start of the stream; both
  come from the stream and are handed on unchanged. The other errors are made by the
  package with errors.New.
\<close>

datatype error =
    EOF
  | ErrNegativePosition
  | ErrMissingSOI
  | ErrMissingEOI
  | ErrAPP1TooLong
  | ErrNoMarkerAndLength
  | ErrSegTooSmall
  | PanicByteCount

text \<open>
  The taxonomy of the package's failures: format violations are the errors the package
  raises about the shape of the JPEG stream; the capacity violation is the oversized
  APP1 segment; the errors of the underlying stream are I/O failures.
\<close>

fun format_violation :: "error \<Rightarrow> bool" where
  "format_violation ErrMissingSOI = True"
| "format_violation ErrMissingEOI = True"
| "format_violation ErrNoMarkerAndLength = True"
| "format_violation ErrSegTooSmall = True"
| "format_violation _ = False"

section \<open>The seekable stream\<close>

text \<open>
  An io.ReadSeeker over a fixed byte sequence, with the behaviour of bytes.Reader and
  of a file opened for reading: a seek to a negative position is an error and leaves the
  cursor alone, a seek beyond the end is allowed, a read at or beyond the end returns no
  bytes and io.EOF, and any other read returns the bytes that are left, up to the size of
  the buffer, and no error.
\<close>

record stream =
  data :: "byte list"
  pos :: nat

datatype whence = SeekStart | SeekCurrent | SeekEnd

definition Seek :: "stream \<Rightarrow> int \<Rightarrow> whence \<Rightarrow> error option \<times> stream" where
  "Seek rs offset w =
     (let target = (case w of
                      SeekStart \<Rightarrow> offset
                    | SeekCurrent \<Rightarrow> int (pos rs) + offset
                    | SeekEnd \<Rightarrow> int (length (data rs)) + offset)
      in if target < 0 then (Some ErrNegativePosition, rs)
         else (None, rs\<lparr>pos := nat target\<rparr>))"

text \<open>
  \<open>Read rs k\<close> is a read into a buffer of \<open>k\<close> bytes: the bytes read (their number is
  the count \<open>n\<close> that Go returns), the error and the stream after the read.
\<close>

definition Read :: "stream \<Rightarrow> nat \<Rightarrow> byte list \<times> error option \<times> stream" where
  "Read rs k =
     (if length (data rs) \<le> pos rs then ([], Some EOF, rs)
      else let got = take k (drop (pos rs) (data rs))
           in (got, None, rs\<lparr>pos := pos rs + length got\<rparr>))"

text \<open>The buffer after a read: the bytes read overwrite its front, the rest stays.\<close>

definition fill :: "byte list \<Rightarrow> byte list \<Rightarrow> byte list" where
  "fill p got = got @ drop (length got) p"

text \<open>
  The reader made by io.MultiReader from a byte buffer and the stream, as the bytes a
  consumer drains from it: the buffer, then the stream from its cursor to its end.
\<close>

definition MultiReader :: "byte list \<Rightarrow> stream \<Rightarrow> byte list" where
  "MultiReader buf rs = buf @ drop (pos rs) (data rs)"

section \<open>Assert\<close>

definition Assert :: "stream \<Rightarrow> error option \<times> stream" where
  "Assert rs =
     (case Seek rs 0 SeekStart of
        (Some e, rs1) \<Rightarrow> (Some e, rs1)
      | (None, rs1) \<Rightarrow>
          (case Read rs1 2 of (got, err, rs2) \<Rightarrow>
             let p = fill [0x00, 0x00] got in
             if err \<noteq> None then (err, rs2)
             else if p \<noteq> soi then (Some ErrMissingSOI, rs2)
             else
               (case Seek rs2 (- 2) SeekEnd of
                  (Some e, rs3) \<Rightarrow> (Some e, rs3)
                | (None, rs3) \<Rightarrow>
                    (case Read rs3 2 of (got', err', rs4) \<Rightarrow>
                       let p' = fill p got' in
                       if err' \<noteq> None \<and> err' \<noteq> Some EOF then (err', rs4)
                       else if p' \<noteq> eoi then (Some ErrMissingEOI, rs4)
                       else (None, rs4)))))"

section \<open>Metadata tags\<close>

text \<open>
  The unexported type \<open>tag\<close> has the three named values of the const block;
  \<open>int_of_tag\<close> is the conversion \<open>int(t)\<close>, the values iota gives them.
\<close>

datatype tag = MetaArtist | MetaTitle | MetaCopyright

fun int_of_tag :: "tag \<Rightarrow> int" where
  "int_of_tag MetaArtist = 0"
| "int_of_tag MetaTitle = 1"
| "int_of_tag MetaCopyright = 2"

fun tagMarker :: "tag \<Rightarrow> byte list" where
  "tagMarker MetaArtist = [0x01, 0x3B, 0x00, 0x02]"
| "tagMarker MetaTitle = [0x01, 0x0E, 0x00, 0x02]"
| "tagMarker MetaCopyright = [0x82, 0x98, 0x00, 0x02]"

text \<open>
  A Go map from tags to strings, as the list of its pairs in the order in which one
  \<open>range\<close> over the map visits them. Go leaves that order open, so a property of the
  map is one that holds for every order. The keys of a map are distinct.
\<close>

type_synonym MetaData = "(tag \<times> byte list) list"

definition is_map :: "MetaData \<Rightarrow> bool" where
  "is_map md \<longleftrightarrow> distinct (map fst md)"

text \<open>The index expression \<open>md[t]\<close>: the empty string for a key that is not there.\<close>

definition lookup :: "MetaData \<Rightarrow> tag \<Rightarrow> byte list" where
  "lookup md t = (case map_of md t of None \<Rightarrow> [] | Some v \<Rightarrow> v)"

section \<open>The scratch buffer\<close>

definition PutUint16 :: "16 word \<Rightarrow> byte list" where
  "PutUint16 v = [ucast (drop_bit 8 v), ucast v]"

definition PutUint32 :: "32 word \<Rightarrow> byte list" where
  "PutUint32 v = [ucast (drop_bit 24 v), ucast (drop_bit 16 v), ucast (drop_bit 8 v), ucast v]"

definition Uint16 :: "byte list \<Rightarrow> 16 word" where
  "Uint16 b = ucast (b ! 1) OR push_bit 8 (ucast (b ! 0))"


text \<open>
  \<open>scratch.bytes\<close>: the big-endian bytes of \<open>n\<close>, converted to uint16 or uint32;
  \<open>None\<close> is the panic on any other byte count. The scratch buffer has four bytes, and
  every caller copies the returned slice before the buffer is written again.
\<close>

definition bytes :: "int \<Rightarrow> int \<Rightarrow> byte list option" where
  "bytes n byteCount =
     (if byteCount = 2 then Some (PutUint16 (word_of_int n))
      else if byteCount = 4 then Some (PutUint32 (word_of_int n))
      else None)"

section \<open>seekToDQT\<close>

text \<open>
  The loop of \<open>seekToDQT\<close>. The file holds two copies of the function that differ in
  the least value they accept for \<open>segLen\<close> (8 in the copy beside \<open>SetMeta\<close>, 6 in the
  copy beside \<open>ReplaceMeta\<close>); that constant is the parameter \<open>fl\<close>. The four bytes
  of the scratch buffer are looked at only after a read that filled all four.
\<close>

function seekLoop :: "int \<Rightarrow> stream \<Rightarrow> error option \<times> stream" where
  "seekLoop fl rs =
     (let r = Read rs 4; p = fst r; err = fst (snd r); rs1 = snd (snd r) in
      if err \<noteq> None then (err, rs1)
      else if length p \<noteq> 4 then (Some ErrNoMarkerAndLength, rs1)
      else if take 2 p = dqt then (None, rs1)
      else
        let segLen = uint (Uint16 (drop 2 p)) - 2 in
        if segLen < fl then (Some ErrSegTooSmall, rs1)
        else
          let s = Seek rs1 segLen SeekCurrent in
          if fst s \<noteq> None then s
          else seekLoop fl (snd s))"
  by pat_completeness auto
termination
proof (relation "measure (\<lambda>(fl, rs). length (data rs) - pos rs)")
  show "wf (measure (\<lambda>(fl, rs). length (data rs) - pos rs))"
    by simp
next
  fix fl :: int and rs :: stream and r p err rs1 segLen s
  assume r: "r = Read rs 4" and p: "p = fst r" and err: "err = fst (snd r)"
    and rs1: "rs1 = snd (snd r)" and noerr: "\<not> err \<noteq> None" and len: "\<not> length p \<noteq> 4"
    and segLen: "segLen = uint (Uint16 (drop 2 p)) - 2"
    and s: "s = Seek rs1 segLen SeekCurrent" and ok: "\<not> fst s \<noteq> None"
  from r err noerr have inside: "pos rs < length (data rs)"
    by (auto simp: Read_def Let_def split: if_splits)
  with r p rs1 len have rs1': "pos rs1 = pos rs + 4" "data rs1 = data rs"
    by (auto simp: Read_def Let_def split: if_splits)
  have "- 2 \<le> segLen"
    using segLen by simp
  with s ok rs1' have "pos rs < pos (snd s)" "data (snd s) = data rs"
    by (auto simp: Seek_def Let_def split: if_splits)
  with inside show "((fl, snd s), (fl, rs)) \<in> measure (\<lambda>(fl, rs). length (data rs) - pos rs)"
    by simp
qed

declare seekLoop.simps [simp del]

definition seekToDQT_with :: "int \<Rightarrow> stream \<Rightarrow> error option \<times> stream" where
  "seekToDQT_with fl rs =
     (case Seek rs 2 SeekStart of
        (Some e, rs0) \<Rightarrow> (Some e, rs0)
      | (None, rs0) \<Rightarrow>
          (case seekLoop fl rs0 of
             (Some e, rs1) \<Rightarrow> (Some e, rs1)
           | (None, rs1) \<Rightarrow> Seek rs1 (- 4) SeekCurrent))"

section \<open>SetMeta and ReplaceMeta\<close>

text \<open>
  The loop over the sorted tags: its state is the output buffer, the collected value
  data and the running offset. \<open>None\<close> is a panic of \<open>scratch.bytes\<close>.
\<close>

fun tagLoop ::
  "MetaData \<Rightarrow> tag list \<Rightarrow> byte list \<times> byte list \<times> int \<Rightarrow> (byte list \<times> byte list \<times> int) option"
where
  "tagLoop md [] st = Some st"
| "tagLoop md (t # ts) (buf, dat, ifdOffset) =
     (let buf1 = buf @ tagMarker t;
          newData = lookup md t @ [0x00];
          dat1 = dat @ newData
      in case bytes (int (length newData)) 4 of
           None \<Rightarrow> None
         | Some lenB \<Rightarrow>
             (case bytes ifdOffset 4 of
                None \<Rightarrow> None
              | Some offB \<Rightarrow>
                  tagLoop md ts (buf1 @ lenB @ offB, dat1, ifdOffset + int (length newData))))"

text \<open>
  The first loop of the function, over the map in the order of \<open>range\<close>: it adds up
  the value lengths and collects the keys. The keys are sorted by their integer value
  (sort.Ints on \<open>int(t)\<close>, converted back with \<open>tag(t)\<close> in the second loop).
\<close>

definition rangeLoop :: "MetaData \<Rightarrow> int \<times> tag list \<Rightarrow> int \<times> tag list" where
  "rangeLoop md st = fold (\<lambda>(t, v) (app1Len, sorted). (app1Len + (int (length v) + 1), sorted @ [t])) md st"

definition SetMeta_with :: "int \<Rightarrow> stream \<Rightarrow> MetaData \<Rightarrow> error + byte list" where
  "SetMeta_with fl rs md =
     (case Assert rs of
        (Some e, rs1) \<Rightarrow> Inl e
      | (None, rs1) \<Rightarrow>
          if length md = 0 then
            (case seekToDQT_with fl rs1 of
               (Some e, rs2) \<Rightarrow> Inl e
             | (None, rs2) \<Rightarrow> Inr (MultiReader soi rs2))
          else
            let ifdOffset = int (length tiff) + 2 + int (length md) * 12 + int (length ifd0Next);
                app1Len0 = 4 + int (length exif) + ifdOffset;
                (app1Len, unsorted) = rangeLoop md (app1Len0, []);
                sorted = sort_key int_of_tag unsorted
            in
              if app1Len > 1024 * 64 then Inl ErrAPP1TooLong
              else
                (case bytes app1Len 2 of
                   None \<Rightarrow> Inl PanicByteCount
                 | Some lenB \<Rightarrow>
                     (case bytes (int (length md)) 2 of
                        None \<Rightarrow> Inl PanicByteCount
                      | Some cntB \<Rightarrow>
                          (case tagLoop md sorted (soi @ app1 @ lenB @ exif @ tiff @ cntB, [], ifdOffset) of
                             None \<Rightarrow> Inl PanicByteCount
                           | Some (buf, dat, off) \<Rightarrow>
                               (case seekToDQT_with fl rs1 of
                                  (Some e, rs2) \<Rightarrow> Inl e
                                | (None, rs2) \<Rightarrow>
                                    Inr (MultiReader (buf @ ifd0Next @ dat @ segPad) rs2))))))"

text \<open>\<open>SetMeta\<close> is the first copy in the file, \<open>ReplaceMeta\<close> the second.\<close>

definition seekToDQT :: "stream \<Rightarrow> error option \<times> stream" where
  "seekToDQT = seekToDQT_with 8"

definition SetMeta :: "stream \<Rightarrow> MetaData \<Rightarrow> error + byte list" where
  "SetMeta = SetMeta_with 8"

definition ReplaceMeta :: "stream \<Rightarrow> MetaData \<Rightarrow> error + byte list" where
  "ReplaceMeta = SetMeta_with 6"

section \<open>Reading the code's behaviour and output\<close>

text \<open>
  The cursors at which the loop of \<open>seekToDQT\<close> reads a segment header: the loop
  starts at offset 2, and from a cursor with four bytes left, a marker other than DQT and
  an accepted length, it goes on behind the segment.
\<close>

definition segLen_at :: "byte list \<Rightarrow> nat \<Rightarrow> int" where
  "segLen_at bs p = uint (Uint16 (drop (p + 2) bs)) - 2"

inductive scans_to :: "int \<Rightarrow> byte list \<Rightarrow> nat \<Rightarrow> bool" for fl :: int and bs :: "byte list" where
  scans_start: "scans_to fl bs 2"
| scans_skip: "scans_to fl bs p \<Longrightarrow> p + 4 \<le> length bs \<Longrightarrow> take 2 (drop p bs) \<noteq> dqt \<Longrightarrow>
     fl \<le> segLen_at bs p \<Longrightarrow> scans_to fl bs (nat (int p + 4 + segLen_at bs p))"

code_pred scans_to .

text \<open>The quantities \<open>SetMeta\<close> computes from the map, and the segment it writes.\<close>

definition ifd0_offset :: "MetaData \<Rightarrow> int" where
  "ifd0_offset md = 8 + 2 + int (length md) * 12 + 4"

definition app1Len_of :: "MetaData \<Rightarrow> int" where
  "app1Len_of md = 4 + 6 + ifd0_offset md + (\<Sum>(t, v)\<leftarrow>md. int (length v) + 1)"

definition canonical :: "MetaData \<Rightarrow> tag list" where
  "canonical md = sort_key int_of_tag (map fst md)"

fun ifd_entries :: "MetaData \<Rightarrow> tag list \<Rightarrow> int \<Rightarrow> byte list" where
  "ifd_entries md [] off = []"
| "ifd_entries md (t # ts) off =
     tagMarker t @ PutUint32 (word_of_int (int (length (lookup md t)) + 1))
       @ PutUint32 (word_of_int off)
       @ ifd_entries md ts (off + (int (length (lookup md t)) + 1))"

definition value_blob :: "MetaData \<Rightarrow> tag list \<Rightarrow> byte list" where
  "value_blob md ts = concat (map (\<lambda>t. lookup md t @ [0x00]) ts)"


definition app1_segment :: "MetaData \<Rightarrow> byte list" where
  "app1_segment md =
     soi @ app1 @ PutUint16 (word_of_int (app1Len_of md)) @ exif @ tiff
       @ PutUint16 (word_of_int (int (length md)))
       @ ifd_entries md (canonical md) (ifd0_offset md)
       @ ifd0Next @ value_blob md (canonical md) @ segPad"









section \<open>Example streams and metadata sets\<close>

text \<open>
  A small JPEG stream with one APP1 segment of declared length 12 before its DQT segment,
  its part from the DQT marker on, a stream whose first segment declares the length 3, a
  stream that ends inside its first segment, a metadata set whose APP1 segment has the
  length 65536, the stream of the specification's scenario as it is listed there (eleven
  bytes behind the length field 12) and with a segment of the declared length, and a
  metadata set with two tags.
\<close>

definition example_tail :: "byte list" where
  "example_tail = [0xFF, 0xDB, 0x00, 0x04, 0x01, 0x02, 0xFF, 0xD9]"

definition example_jpeg :: "byte list" where
  "example_jpeg = [0xFF, 0xD8, 0xFF, 0xE1, 0x00, 0x0C,
                   0x45, 0x78, 0x69, 0x66, 0x00, 0x00, 0x00, 0x00, 0x00, 0x00,
                   0xFF, 0xDB, 0x00, 0x04, 0x01, 0x02, 0xFF, 0xD9]"

definition short_segment_jpeg :: "byte list" where
  "short_segment_jpeg = [0xFF, 0xD8, 0xFF, 0xE1, 0x00, 0x03, 0x00, 0xFF, 0xD9]"

definition truncated_jpeg :: "byte list" where
  "truncated_jpeg = [0xFF, 0xD8, 0xFF, 0xE1, 0x00, 0x0C, 0xFF, 0xD9]"

definition big_meta :: MetaData where
  "big_meta = [(MetaArtist, replicate 65499 0x41)]"

definition listed_source :: "byte list \<Rightarrow> byte list" where
  "listed_source tail = [0xFF, 0xD8, 0xFF, 0xE1, 0x00, 0x0C,
       0x45, 0x78, 0x69, 0x66, 0x00, 0x00, 0x00, 0x00, 0x00, 0x00, 0x00] @ tail"

definition fitting_source :: "byte list \<Rightarrow> byte list" where
  "fitting_source tail = [0xFF, 0xD8, 0xFF, 0xE1, 0x00, 0x0C,
       0x45, 0x78, 0x69, 0x66, 0x00, 0x00, 0x00, 0x00, 0x00, 0x00] @ tail"


section \<open>The stream, Assert and the scan\<close>

lemma Seek_start [simp]: "0 \<le> k \<Longrightarrow> Seek rs k SeekStart = (None, rs\<lparr>pos := nat k\<rparr>)"
  by (simp add: Seek_def)

lemma Seek_end_back:
  "Seek rs (- int k) SeekEnd =
     (if length (data rs) < k then (Some ErrNegativePosition, rs)
      else (None, rs\<lparr>pos := length (data rs) - k\<rparr>))"
  by (auto simp: Seek_def Let_def nat_diff_distrib')

lemma Assert_long:
  assumes "2 \<le> length (data rs)"
  shows "Assert rs =
     (if take 2 (data rs) \<noteq> soi then (Some ErrMissingSOI, rs\<lparr>pos := 2\<rparr>)
      else if drop (length (data rs) - 2) (data rs) \<noteq> eoi
        then (Some ErrMissingEOI, rs\<lparr>pos := length (data rs)\<rparr>)
      else (None, rs\<lparr>pos := length (data rs)\<rparr>))"
proof -
  from assms have ne: "data rs \<noteq> []" by auto
  have r1: "Read (rs\<lparr>pos := 0\<rparr>) 2 = (take 2 (data rs), None, rs\<lparr>pos := 2\<rparr>)"
    using assms ne by (simp add: Read_def Let_def)
  have s2: "Seek (rs\<lparr>pos := 2\<rparr>) (- 2) SeekEnd = (None, rs\<lparr>pos := length (data rs) - 2\<rparr>)"
    using assms Seek_end_back [of "rs\<lparr>pos := 2\<rparr>" 2] by simp
  have r2: "Read (rs\<lparr>pos := length (data rs) - 2\<rparr>) 2
      = (drop (length (data rs) - 2) (data rs), None, rs\<lparr>pos := length (data rs)\<rparr>)"
    using assms by (simp add: Read_def Let_def)
  have f: "fill p got = got" if "length p = 2" "length got = 2" for p got :: "byte list"
    using that by (simp add: fill_def)
  have l2: "length (drop (length (data rs) - 2) (data rs)) = 2"
    using assms by simp
  show ?thesis
  proof (cases "take 2 (data rs) = soi")
    case True
    then have "length soi = 2" "fill [0, 0] soi = soi"
      by (simp_all add: soi_def fill_def)
    with True l2 show ?thesis
      by (simp add: Assert_def r1 s2 r2 Let_def f)
  next
    case False
    have "fill [0, 0] (take 2 (data rs)) = take 2 (data rs)"
      using assms by (simp add: f)
    with False show ?thesis
      by (simp add: Assert_def r1 Let_def)
  qed
qed

lemma Assert_short:
  assumes "length (data rs) < 2"
  shows "fst (Assert rs) = (if data rs = [] then Some EOF else Some ErrMissingSOI)"
proof (cases "data rs")
  case Nil
  then show ?thesis by (simp add: Assert_def Read_def)
next
  case (Cons b bs)
  with assms have "bs = []" by simp
  with Cons show ?thesis
    by (simp add: Assert_def Read_def Let_def fill_def soi_def)
qed

lemma Assert_data: "data (snd (Assert rs)) = data rs"
  by (auto simp: Assert_def Read_def Seek_def Let_def split: prod.splits option.splits if_splits)


lemma segLen_at_ge: "- 2 \<le> segLen_at bs p"
  by (simp add: segLen_at_def)

lemma Read4:
  assumes "pos rs + 4 \<le> length (data rs)"
  shows "Read rs 4 = (take 4 (drop (pos rs) (data rs)), None, rs\<lparr>pos := pos rs + 4\<rparr>)"
  using assms by (simp add: Read_def Let_def)

lemma Uint16_header:
  assumes "p + 4 \<le> length bs"
  shows "uint (Uint16 (drop 2 (take 4 (drop p bs)))) - 2 = segLen_at bs p"
  using assms by (simp add: Uint16_def segLen_at_def add.commute)

lemma seekLoop_eof:
  assumes "length (data rs) \<le> pos rs"
  shows "seekLoop fl rs = (Some EOF, rs)"
  using assms by (subst seekLoop.simps) (simp add: Read_def)

lemma seekLoop_short:
  assumes "pos rs < length (data rs)" "length (data rs) < pos rs + 4"
  shows "seekLoop fl rs = (Some ErrNoMarkerAndLength, rs\<lparr>pos := length (data rs)\<rparr>)"
proof -
  define got where "got = take 4 (drop (pos rs) (data rs))"
  have len: "length got = length (data rs) - pos rs"
    using assms by (simp add: got_def)
  have r: "Read rs 4 = (got, None, rs\<lparr>pos := length (data rs)\<rparr>)"
    using assms by (simp add: Read_def Let_def got_def)
  have "length got \<noteq> 4"
    using assms len by simp
  then show ?thesis
    by (subst seekLoop.simps) (simp add: r Let_def)
qed

lemma seekLoop_dqt:
  assumes "pos rs + 4 \<le> length (data rs)" "take 2 (drop (pos rs) (data rs)) = dqt"
  shows "seekLoop fl rs = (None, rs\<lparr>pos := pos rs + 4\<rparr>)"
  using assms by (subst seekLoop.simps) (simp add: Read4 Let_def)

lemma seekLoop_small:
  assumes "pos rs + 4 \<le> length (data rs)" "take 2 (drop (pos rs) (data rs)) \<noteq> dqt"
    and "segLen_at (data rs) (pos rs) < fl"
  shows "seekLoop fl rs = (Some ErrSegTooSmall, rs\<lparr>pos := pos rs + 4\<rparr>)"
  using assms by (subst seekLoop.simps) (simp add: Read4 Let_def Uint16_header)

lemma seekLoop_skip:
  assumes "pos rs + 4 \<le> length (data rs)" "take 2 (drop (pos rs) (data rs)) \<noteq> dqt"
    and "fl \<le> segLen_at (data rs) (pos rs)"
  shows "seekLoop fl rs = seekLoop fl (rs\<lparr>pos := nat (int (pos rs) + 4 + segLen_at (data rs) (pos rs))\<rparr>)"
proof -
  have "0 \<le> int (pos rs) + 4 + segLen_at (data rs) (pos rs)"
    using segLen_at_ge [of "data rs" "pos rs"] by linarith
  then have sk: "Seek (rs\<lparr>pos := pos rs + 4\<rparr>) (segLen_at (data rs) (pos rs)) SeekCurrent
      = (None, rs\<lparr>pos := nat (int (pos rs) + 4 + segLen_at (data rs) (pos rs))\<rparr>)"
    by (simp add: Seek_def Let_def add.assoc)
  show ?thesis
    using assms by (subst seekLoop.simps) (simp add: Read4 Let_def Uint16_header sk)
qed

lemma scans_to_loop:
  assumes "scans_to fl (data rs) p"
  shows "seekLoop fl (rs\<lparr>pos := 2\<rparr>) = seekLoop fl (rs\<lparr>pos := p\<rparr>)"
  using assms
proof (induction rule: scans_to.induct)
  case scans_start
  show ?case by simp
next
  case (scans_skip p)
  then show ?case
    using seekLoop_skip [of "rs\<lparr>pos := p\<rparr>" fl] by simp
qed

section \<open>The scan result and the written segment\<close>

lemma seekToDQT_start: "seekToDQT_with fl rs =
     (case seekLoop fl (rs\<lparr>pos := 2\<rparr>) of
        (Some e, rs1) \<Rightarrow> (Some e, rs1)
      | (None, rs1) \<Rightarrow> Seek rs1 (- 4) SeekCurrent)"
  by (simp add: seekToDQT_with_def)

lemma seekToDQT_found:
  assumes "scans_to fl (data rs) q" "q + 4 \<le> length (data rs)" "take 2 (drop q (data rs)) = dqt"
  shows "seekToDQT_with fl rs = (None, rs\<lparr>pos := q\<rparr>)"
proof -
  have "seekLoop fl (rs\<lparr>pos := 2\<rparr>) = (None, rs\<lparr>pos := q + 4\<rparr>)"
    using assms scans_to_loop [of fl rs q] seekLoop_dqt [of "rs\<lparr>pos := q\<rparr>" fl] by simp
  then show ?thesis
    by (simp add: seekToDQT_start Seek_def)
qed

lemma seekToDQT_small:
  assumes "scans_to fl (data rs) q" "q + 4 \<le> length (data rs)" "take 2 (drop q (data rs)) \<noteq> dqt"
    and "segLen_at (data rs) q < fl"
  shows "seekToDQT_with fl rs = (Some ErrSegTooSmall, rs\<lparr>pos := q + 4\<rparr>)"
proof -
  have "seekLoop fl (rs\<lparr>pos := 2\<rparr>) = (Some ErrSegTooSmall, rs\<lparr>pos := q + 4\<rparr>)"
    using assms scans_to_loop [of fl rs q] seekLoop_small [of "rs\<lparr>pos := q\<rparr>" fl] by simp
  then show ?thesis
    by (simp add: seekToDQT_start)
qed

lemma seekToDQT_short:
  assumes "scans_to fl (data rs) q" "q < length (data rs)" "length (data rs) < q + 4"
  shows "seekToDQT_with fl rs = (Some ErrNoMarkerAndLength, rs\<lparr>pos := length (data rs)\<rparr>)"
proof -
  have "seekLoop fl (rs\<lparr>pos := 2\<rparr>) = (Some ErrNoMarkerAndLength, rs\<lparr>pos := length (data rs)\<rparr>)"
    using assms scans_to_loop [of fl rs q] seekLoop_short [of "rs\<lparr>pos := q\<rparr>" fl] by simp
  then show ?thesis
    by (simp add: seekToDQT_start)
qed

lemma seekToDQT_eof:
  assumes "scans_to fl (data rs) q" "length (data rs) \<le> q"
  shows "seekToDQT_with fl rs = (Some EOF, rs\<lparr>pos := q\<rparr>)"
proof -
  have "seekLoop fl (rs\<lparr>pos := 2\<rparr>) = (Some EOF, rs\<lparr>pos := q\<rparr>)"
    using assms scans_to_loop [of fl rs q] seekLoop_eof [of "rs\<lparr>pos := q\<rparr>" fl] by simp
  then show ?thesis
    by (simp add: seekToDQT_start)
qed

lemma bytes_2 [simp]: "bytes n 2 = Some (PutUint16 (word_of_int n))"
  by (simp add: bytes_def)

lemma bytes_4 [simp]: "bytes n 4 = Some (PutUint32 (word_of_int n))"
  by (simp add: bytes_def)

lemma length_value_blob_Cons:
  "value_blob md (t # ts) = lookup md t @ [0x00] @ value_blob md ts"
  by (simp add: value_blob_def)

lemma tagLoop_eq:
  "tagLoop md ts (buf, dat, off) =
     Some (buf @ ifd_entries md ts off, dat @ value_blob md ts, off + int (length (value_blob md ts)))"
proof (induction ts arbitrary: buf dat off)
  case Nil
  show ?case by (simp add: value_blob_def)
next
  case (Cons t ts)
  show ?case
    by (simp add: Cons.IH Let_def length_value_blob_Cons ac_simps)
qed

lemma rangeLoop_eq:
  "rangeLoop md (a, s) = (a + (\<Sum>(t, v)\<leftarrow>md. int (length v) + 1), s @ map fst md)"
proof -
  have "fold (\<lambda>(t, v) (app1Len, sorted). (app1Len + (int (length v) + 1), sorted @ [t])) md (a, s)
      = (a + (\<Sum>(t, v)\<leftarrow>md. int (length v) + 1), s @ map fst md)"
    by (induction md arbitrary: a s) (auto simp: add.assoc)
  then show ?thesis
    by (simp add: rangeLoop_def)
qed

lemma SetMeta_empty:
  "SetMeta_with fl rs [] =
     (case Assert rs of
        (Some e, rs1) \<Rightarrow> Inl e
      | (None, rs1) \<Rightarrow>
          (case seekToDQT_with fl rs1 of
             (Some e, rs2) \<Rightarrow> Inl e
           | (None, rs2) \<Rightarrow> Inr (soi @ drop (pos rs2) (data rs2))))"
  by (simp add: SetMeta_with_def MultiReader_def split: prod.splits option.splits)

lemma SetMeta_nonempty:
  assumes "md \<noteq> []"
  shows "SetMeta_with fl rs md =
     (case Assert rs of
        (Some e, rs1) \<Rightarrow> Inl e
      | (None, rs1) \<Rightarrow>
          if app1Len_of md > 65536 then Inl ErrAPP1TooLong
          else
            (case seekToDQT_with fl rs1 of
               (Some e, rs2) \<Rightarrow> Inl e
             | (None, rs2) \<Rightarrow> Inr (app1_segment md @ drop (pos rs2) (data rs2))))"
  using assms
  by (simp add: SetMeta_with_def rangeLoop_eq tagLoop_eq MultiReader_def app1_segment_def
      canonical_def app1Len_of_def ifd0_offset_def tiff_def ifd0Next_def exif_def Let_def
      split: prod.splits option.splits)

lemma Assert_errors:
  "fst (Assert rs) \<in> {None, Some EOF, Some ErrMissingSOI, Some ErrMissingEOI}"
proof (cases "2 \<le> length (data rs)")
  case True
  then show ?thesis by (simp add: Assert_long)
next
  case False
  then show ?thesis by (simp add: Assert_short)
qed

lemma seekLoop_errors:
  "fst (seekLoop fl rs) \<in> {None, Some EOF, Some ErrNoMarkerAndLength, Some ErrSegTooSmall}"
proof (induction fl rs rule: seekLoop.induct)
  case (1 fl rs)
  consider (eof) "length (data rs) \<le> pos rs"
    | (short) "pos rs < length (data rs)" "length (data rs) < pos rs + 4"
    | (dqt) "pos rs + 4 \<le> length (data rs)" "take 2 (drop (pos rs) (data rs)) = dqt"
    | (small) "pos rs + 4 \<le> length (data rs)" "take 2 (drop (pos rs) (data rs)) \<noteq> dqt"
        "segLen_at (data rs) (pos rs) < fl"
    | (skip) "pos rs + 4 \<le> length (data rs)" "take 2 (drop (pos rs) (data rs)) \<noteq> dqt"
        "fl \<le> segLen_at (data rs) (pos rs)"
    by linarith
  then show ?case
  proof cases
    case eof
    then show ?thesis by (simp add: seekLoop_eof)
  next
    case short
    then show ?thesis by (simp add: seekLoop_short)
  next
    case dqt
    then show ?thesis by (simp add: seekLoop_dqt)
  next
    case small
    then show ?thesis by (simp add: seekLoop_small)
  next
    case skip
    let ?q = "nat (int (pos rs) + 4 + segLen_at (data rs) (pos rs))"
    have nonneg: "0 \<le> int (pos rs) + 4 + segLen_at (data rs) (pos rs)"
      using segLen_at_ge [of "data rs" "pos rs"] by linarith
    have sk: "Seek (rs\<lparr>pos := pos rs + 4\<rparr>) (segLen_at (data rs) (pos rs)) SeekCurrent
        = (None, rs\<lparr>pos := ?q\<rparr>)"
      using nonneg by (simp add: Seek_def Let_def add.assoc)
    have "fst (seekLoop fl (rs\<lparr>pos := ?q\<rparr>))
        \<in> {None, Some EOF, Some ErrNoMarkerAndLength, Some ErrSegTooSmall}"
      using "1.IH" [OF refl refl refl refl, of "segLen_at (data rs) (pos rs)"
          "Seek (rs\<lparr>pos := pos rs + 4\<rparr>) (segLen_at (data rs) (pos rs)) SeekCurrent"]
        skip
      by (simp add: Read4 Uint16_header sk)
    then show ?thesis
      using skip by (simp add: seekLoop_skip)
  qed
qed

lemma seekToDQT_errors:
  "fst (seekToDQT_with fl rs)
     \<in> {None, Some EOF, Some ErrNoMarkerAndLength, Some ErrSegTooSmall, Some ErrNegativePosition}"
proof -
  obtain e rs1 where l: "seekLoop fl (rs\<lparr>pos := 2\<rparr>) = (e, rs1)"
    by (cases "seekLoop fl (rs\<lparr>pos := 2\<rparr>)")
  with seekLoop_errors [of fl "rs\<lparr>pos := 2\<rparr>"]
  have "e \<in> {None, Some EOF, Some ErrNoMarkerAndLength, Some ErrSegTooSmall}"
    by simp
  then show ?thesis
    by (auto simp: seekToDQT_start l Seek_def Let_def split: if_splits)
qed


lemma SetMeta_errors:
  "SetMeta_with fl rs md = Inl e \<Longrightarrow>
     e \<in> {EOF, ErrMissingSOI, ErrMissingEOI, ErrAPP1TooLong, ErrNoMarkerAndLength,
          ErrSegTooSmall, ErrNegativePosition}"
proof -
  assume r: "SetMeta_with fl rs md = Inl e"
  obtain a rs1 where a: "Assert rs = (a, rs1)"
    by (cases "Assert rs")
  obtain d rs2 where d: "seekToDQT_with fl rs1 = (d, rs2)"
    by (cases "seekToDQT_with fl rs1")
  from Assert_errors [of rs] a
  have a': "a \<in> {None, Some EOF, Some ErrMissingSOI, Some ErrMissingEOI}"
    by simp
  from seekToDQT_errors [of fl rs1] d
  have d': "d \<in> {None, Some EOF, Some ErrNoMarkerAndLength, Some ErrSegTooSmall, Some ErrNegativePosition}"
    by simp
  show ?thesis
  proof (cases "md = []")
    case True
    with r a d a' d' show ?thesis
      by (auto simp: SetMeta_empty split: if_splits)
  next
    case False
    with r a d a' d' show ?thesis
      by (auto simp: SetMeta_nonempty split: if_splits)
  qed
qed

section \<open>Panics and the marker check\<close>

text \<open>
  C10. Every call of \<open>scratch.bytes\<close> in the package passes the byte count 2 or 4
  (the calls are the ones in \<open>SetMeta_with\<close> and \<open>tagLoop\<close>), so the panic is never
  reached: for every stream and every metadata set neither \<open>Assert\<close> nor \<open>SetMeta\<close>
  nor \<open>ReplaceMeta\<close> ends in the panic of \<open>scratch.bytes\<close>.
\<close>

theorem C10_bytes_never_panics:
  "fst (Assert rs) \<noteq> Some PanicByteCount \<and> SetMeta rs md \<noteq> Inl PanicByteCount
     \<and> ReplaceMeta rs md \<noteq> Inl PanicByteCount
     \<and> bytes n 2 \<noteq> None \<and> bytes n 4 \<noteq> None"
proof -
  have "fst (Assert rs) \<noteq> Some PanicByteCount"
    using Assert_errors [of rs] by auto
  moreover have "SetMeta_with fl rs md \<noteq> Inl PanicByteCount" for fl
    using SetMeta_errors [of fl rs md PanicByteCount] by auto
  ultimately show ?thesis
    by (simp add: SetMeta_def ReplaceMeta_def)
qed



section \<open>The empty metadata set\<close>

lemma dqt_inside:
  assumes eoi: "drop (length bs - 2) bs = eoi" and dqt: "take 2 (drop q bs) = dqt"
  shows "q + 4 \<le> length bs"
proof -
  have "length (take 2 (drop q bs)) = 2"
    using dqt by (simp add: dqt_def)
  then have q2: "q + 2 \<le> length bs"
    by simp
  have d0: "bs ! q = 0xFF" and d1: "bs ! (q + 1) = 0xDB"
  proof -
    have "take 2 (drop q bs) ! 0 = 0xFF" "take 2 (drop q bs) ! 1 = 0xDB"
      using dqt by (simp_all add: dqt_def)
    with q2 show "bs ! q = 0xFF" "bs ! (q + 1) = 0xDB"
      by simp_all
  qed
  have e0: "bs ! (length bs - 2) = 0xFF" and e1: "bs ! (length bs - 1) = 0xD9"
  proof -
    have "drop (length bs - 2) bs ! 0 = 0xFF" "drop (length bs - 2) bs ! 1 = 0xD9"
      using eoi by (simp_all add: eoi_def)
    moreover have "length bs - 2 + 1 = length bs - 1"
      using q2 by simp
    ultimately show "bs ! (length bs - 2) = 0xFF" "bs ! (length bs - 1) = 0xD9"
      using q2 by (simp_all del: One_nat_def)
  qed
  show ?thesis
  proof (rule ccontr)
    assume "\<not> q + 4 \<le> length bs"
    with q2 consider "length bs = q + 2" | "length bs = q + 3"
      by linarith
    then show False
    proof cases
      case 1
      with d1 e1 show False by simp
    next
      case 2
      with d1 e0 show False by simp
    qed
  qed
qed

lemma Assert_valid:
  assumes "take 2 (data rs) = soi" "drop (length (data rs) - 2) (data rs) = eoi"
  shows "Assert rs = (None, rs\<lparr>pos := length (data rs)\<rparr>)"
proof -
  have "length (take 2 (data rs)) = 2"
    using assms(1) by (simp add: soi_def)
  then have "2 \<le> length (data rs)"
    by simp
  with assms show ?thesis
    by (simp add: Assert_long)
qed

text \<open>
  C6. For every valid JPEG stream (SOI first, EOI last) in which the scan reaches a DQT
  marker, \<open>SetMeta\<close> with the empty metadata set succeeds, and its output is the two
  SOI bytes followed by the bytes of the stream from that DQT marker on: no APP1 segment
  is written and the segments before the DQT marker are dropped.
\<close>

theorem C6_empty_set_strips_metadata:
  assumes "take 2 (data rs) = soi" "drop (length (data rs) - 2) (data rs) = eoi"
    and "scans_to 8 (data rs) q" "take 2 (drop q (data rs)) = dqt"
  shows "SetMeta rs [] = Inr (soi @ drop q (data rs))
     \<and> take 4 (soi @ drop q (data rs)) = soi @ dqt"
proof -
  have q: "q + 4 \<le> length (data rs)"
    using assms(2,4) by (rule dqt_inside)
  have "seekToDQT_with 8 (rs\<lparr>pos := length (data rs)\<rparr>) = (None, rs\<lparr>pos := q\<rparr>)"
    using seekToDQT_found [of 8 "rs\<lparr>pos := length (data rs)\<rparr>" q] assms(3,4) q by simp
  then have "SetMeta rs [] = Inr (soi @ drop q (data rs))"
    by (simp add: SetMeta_def SetMeta_empty Assert_valid assms(1,2))
  moreover have "take 4 (soi @ drop q (data rs)) = soi @ take 2 (drop q (data rs))"
    by (simp add: soi_def)
  ultimately show ?thesis
    by (simp add: assms(4))
qed

lemma example_scan: "scans_to 8 example_jpeg 16"
  using scans_skip [OF scans_start, of example_jpeg 8]
  by (simp add: example_jpeg_def segLen_at_def Uint16_def dqt_def)

theorem C6_witness:
  "take 2 (data \<lparr>data = example_jpeg, pos = 0\<rparr>) = soi
     \<and> drop (length (data \<lparr>data = example_jpeg, pos = 0\<rparr>) - 2) (data \<lparr>data = example_jpeg, pos = 0\<rparr>) = eoi
     \<and> scans_to 8 (data \<lparr>data = example_jpeg, pos = 0\<rparr>) 16
     \<and> take 2 (drop 16 (data \<lparr>data = example_jpeg, pos = 0\<rparr>)) = dqt
     \<and> SetMeta \<lparr>data = example_jpeg, pos = 0\<rparr> [] = Inr (soi @ example_tail)"
proof -
  have a: "take 2 (data \<lparr>data = example_jpeg, pos = 0\<rparr>) = soi"
    by (simp add: example_jpeg_def soi_def)
  have b: "drop (length (data \<lparr>data = example_jpeg, pos = 0\<rparr>) - 2) (data \<lparr>data = example_jpeg, pos = 0\<rparr>) = eoi"
    by (simp add: example_jpeg_def eoi_def)
  have c: "scans_to 8 (data \<lparr>data = example_jpeg, pos = 0\<rparr>) 16"
    using example_scan by simp
  have d: "take 2 (drop 16 (data \<lparr>data = example_jpeg, pos = 0\<rparr>)) = dqt"
    by (simp add: example_jpeg_def dqt_def)
  have e: "drop 16 example_jpeg = example_tail"
    by (simp add: example_jpeg_def example_tail_def)
  show ?thesis
    using C6_empty_set_strips_metadata [OF a b c d] a b c d e by simp
qed

section \<open>Failures of the scan\<close>

lemma SetMeta_scan:
  assumes "fst (Assert rs) = None" "app1Len_of md \<le> 65536"
  shows "SetMeta_with fl rs md =
     (case seekToDQT_with fl (rs\<lparr>pos := length (data rs)\<rparr>) of
        (Some e, rs2) \<Rightarrow> Inl e
      | (None, rs2) \<Rightarrow> Inr ((if md = [] then soi else app1_segment md) @ drop (pos rs2) (data rs2)))"
proof -
  have "2 \<le> length (data rs)"
    using assms(1) Assert_short [of rs] by (cases "2 \<le> length (data rs)") (auto split: if_splits)
  with assms(1) have a: "Assert rs = (None, rs\<lparr>pos := length (data rs)\<rparr>)"
    by (auto simp: Assert_long split: if_splits)
  show ?thesis
  proof (cases "md = []")
    case True
    then show ?thesis by (simp add: SetMeta_empty a)
  next
    case False
    with assms(2) show ?thesis by (simp add: SetMeta_nonempty a)
  qed
qed

text \<open>
  C7, as amended. Let the scan of a stream that passed \<open>Assert\<close> reach the cursor
  \<open>q\<close>, and let the metadata fit the APP1 segment. If four bytes are left at \<open>q\<close>,
  the marker there is not DQT and the declared length minus two is below the floor
  \<open>fl\<close> of the copy at hand (8 for \<open>SetMeta\<close>, 6 for \<open>ReplaceMeta\<close>; a declared
  length of 3 is below both), the function returns the error "reported segment length
  too small" and no reader. If one to three bytes are left, it returns the error
  "couldn't read next segment marker and length"; both are format violations. If no byte
  is left, it returns the end-of-stream error of the read, which is an error of the
  stream and not a format violation.
\<close>

theorem C7_scan_failures:
  assumes "fst (Assert rs) = None" "app1Len_of md \<le> 65536" "scans_to fl (data rs) q"
  shows "(q + 4 \<le> length (data rs) \<and> take 2 (drop q (data rs)) \<noteq> dqt \<and> segLen_at (data rs) q < fl
            \<longrightarrow> SetMeta_with fl rs md = Inl ErrSegTooSmall)
     \<and> (q < length (data rs) \<and> length (data rs) < q + 4
            \<longrightarrow> SetMeta_with fl rs md = Inl ErrNoMarkerAndLength)
     \<and> (length (data rs) \<le> q \<longrightarrow> SetMeta_with fl rs md = Inl EOF)
     \<and> format_violation ErrSegTooSmall \<and> format_violation ErrNoMarkerAndLength
     \<and> \<not> format_violation EOF"
proof -
  let ?rs = "rs\<lparr>pos := length (data rs)\<rparr>"
  have s: "scans_to fl (data ?rs) q"
    using assms(3) by simp
  have "SetMeta_with fl rs md = Inl ErrSegTooSmall"
    if "q + 4 \<le> length (data rs)" "take 2 (drop q (data rs)) \<noteq> dqt" "segLen_at (data rs) q < fl"
    using seekToDQT_small [OF s] that by (simp add: SetMeta_scan [OF assms(1,2)])
  moreover have "SetMeta_with fl rs md = Inl ErrNoMarkerAndLength"
    if "q < length (data rs)" "length (data rs) < q + 4"
    using seekToDQT_short [OF s] that by (simp add: SetMeta_scan [OF assms(1,2)])
  moreover have "SetMeta_with fl rs md = Inl EOF" if "length (data rs) \<le> q"
    using seekToDQT_eof [OF s] that by (simp add: SetMeta_scan [OF assms(1,2)])
  ultimately show ?thesis
    by simp
qed

lemma app1Len_of_Nil: "app1Len_of [] = 24"
  by (simp add: app1Len_of_def ifd0_offset_def)

theorem C7_witness:
  "fst (Assert \<lparr>data = short_segment_jpeg, pos = 0\<rparr>) = None
     \<and> app1Len_of [] \<le> 65536
     \<and> scans_to 8 (data \<lparr>data = short_segment_jpeg, pos = 0\<rparr>) 2
     \<and> 2 + 4 \<le> length short_segment_jpeg
     \<and> take 2 (drop 2 short_segment_jpeg) \<noteq> dqt
     \<and> segLen_at short_segment_jpeg 2 < 8
     \<and> SetMeta \<lparr>data = short_segment_jpeg, pos = 0\<rparr> [] = Inl ErrSegTooSmall
     \<and> SetMeta \<lparr>data = [0xFF, 0xD8, 0xFF, 0xFF, 0xD9], pos = 0\<rparr> [] = Inl ErrNoMarkerAndLength"
proof -
  let ?rs = "\<lparr>data = short_segment_jpeg, pos = 0\<rparr>"
  let ?rs' = "\<lparr>data = [0xFF, 0xD8, 0xFF, 0xFF, 0xD9], pos = 0\<rparr>"
  have a: "fst (Assert ?rs) = None"
    by (simp add: Assert_long short_segment_jpeg_def soi_def eoi_def)
  have a': "fst (Assert ?rs') = None"
    by (simp add: Assert_long soi_def eoi_def)
  have b: "app1Len_of [] \<le> 65536"
    by (simp add: app1Len_of_Nil)
  have c: "scans_to 8 (data ?rs) 2" and c': "scans_to 8 (data ?rs') 2"
    by (rule scans_start)+
  have d: "2 + 4 \<le> length short_segment_jpeg" "take 2 (drop 2 short_segment_jpeg) \<noteq> dqt"
    "segLen_at short_segment_jpeg 2 < 8"
    by (simp_all add: short_segment_jpeg_def dqt_def segLen_at_def Uint16_def)
  show ?thesis
    using C7_scan_failures [OF a b c] C7_scan_failures [OF a' b c'] a b c d
    by (simp add: SetMeta_def)
qed

theorem C7_counterexample:
  "SetMeta \<lparr>data = truncated_jpeg, pos = 0\<rparr> [] = Inl EOF \<and> \<not> format_violation EOF"
proof -
  let ?rs = "\<lparr>data = truncated_jpeg, pos = 0\<rparr>"
  have a: "fst (Assert ?rs) = None"
    by (simp add: Assert_long truncated_jpeg_def soi_def eoi_def)
  have "scans_to 8 truncated_jpeg 16"
    using scans_skip [OF scans_start, of truncated_jpeg 8]
    by (simp add: truncated_jpeg_def segLen_at_def Uint16_def dqt_def)
  then have "seekToDQT_with 8 (?rs\<lparr>pos := length (data ?rs)\<rparr>) = (Some EOF, ?rs\<lparr>pos := 16\<rparr>)"
    using seekToDQT_eof [of 8 "?rs\<lparr>pos := length (data ?rs)\<rparr>" 16]
    by (simp add: truncated_jpeg_def)
  then show ?thesis
    using SetMeta_scan [OF a, of "[]" 8] by (simp add: SetMeta_def app1Len_of_Nil)
qed

section \<open>The capacity check\<close>

lemma example_valid:
  "take 2 example_jpeg = soi" "drop (length example_jpeg - 2) example_jpeg = eoi"
  "take 2 (drop 16 example_jpeg) = dqt" "16 + 4 \<le> length example_jpeg"
  "drop 16 example_jpeg = example_tail"
  by (simp_all add: example_jpeg_def soi_def eoi_def dqt_def example_tail_def)

lemma example_seek: "seekToDQT_with 8 \<lparr>data = example_jpeg, pos = p\<rparr> = (None, \<lparr>data = example_jpeg, pos = 16\<rparr>)"
  using seekToDQT_found [of 8 "\<lparr>data = example_jpeg, pos = p\<rparr>" 16] example_scan example_valid
  by simp

lemma example_Assert: "fst (Assert \<lparr>data = example_jpeg, pos = p\<rparr>) = None"
  using Assert_valid [of "\<lparr>data = example_jpeg, pos = p\<rparr>"] example_valid by simp

lemma example_SetMeta:
  assumes "app1Len_of md \<le> 65536" "md \<noteq> []"
  shows "SetMeta \<lparr>data = example_jpeg, pos = p\<rparr> md = Inr (app1_segment md @ example_tail)"
  using SetMeta_scan [where rs = "\<lparr>data = example_jpeg, pos = p\<rparr>" and fl = 8, OF example_Assert assms(1)]
    assms(2)
  by (simp add: SetMeta_def example_seek example_valid)

lemma big_meta_len: "app1Len_of big_meta = 65536"
  by (simp add: big_meta_def app1Len_of_def ifd0_offset_def)

lemma length_field:
  "take 2 (drop 4 (app1_segment md @ rest)) = PutUint16 (word_of_int (app1Len_of md))"
  by (simp add: app1_segment_def soi_def app1_def PutUint16_def)

lemma PutUint16_65536: "PutUint16 (word_of_int 65536) = [0x00, 0x00]"
  by (simp add: PutUint16_def)

text \<open>
  C3. The length field of the segment has two bytes, so the largest length it can hold
  is 65535, and the specification asks for a failure from 65536 on. The code misses that
  by one: its check rejects a length above 1024 * 64 = 65536, so a metadata set whose APP1
  length is exactly 65536 is accepted and \<open>SetMeta\<close> returns a reader, whose length
  field holds 0.
\<close>

theorem C3_accepts_length_65536:
  "app1Len_of big_meta = 65536
     \<and> SetMeta \<lparr>data = example_jpeg, pos = 0\<rparr> big_meta = Inr (app1_segment big_meta @ example_tail)
     \<and> take 2 (drop 4 (app1_segment big_meta @ example_tail)) = [0x00, 0x00]"
proof -
  have "big_meta \<noteq> []"
    by (simp add: big_meta_def)
  then have "SetMeta \<lparr>data = example_jpeg, pos = 0\<rparr> big_meta = Inr (app1_segment big_meta @ example_tail)"
    by (simp add: example_SetMeta big_meta_len)
  moreover have "take 2 (drop 4 (app1_segment big_meta @ example_tail)) = [0x00, 0x00]"
    by (simp only: length_field big_meta_len PutUint16_65536)
  ultimately show ?thesis
    using big_meta_len by simp
qed

text \<open>
  C9. For every metadata set whose APP1 length is exactly 65536 the capacity check lets
  \<open>SetMeta\<close> through: the result is never the "APP1 segment is too long" error, a
  stream that passes \<open>Assert\<close> and the scan gives a reader, and in every reader returned
  the two bytes of the length field are those of 65536 as a uint16, which is 0. Only a
  length above 65536 is rejected by the check.
\<close>

theorem C9_length_65536_wraps:
  assumes "app1Len_of md = 65536"
  shows "SetMeta rs md \<noteq> Inl ErrAPP1TooLong
     \<and> bytes (app1Len_of md) 2 = Some [0x00, 0x00]
     \<and> (\<forall>out. SetMeta rs md = Inr out \<longrightarrow> take 2 (drop 4 out) = [0x00, 0x00])
     \<and> (fst (Assert rs) = None \<and> fst (seekToDQT (snd (Assert rs))) = None
          \<longrightarrow> (\<exists>out. SetMeta rs md = Inr out))
     \<and> (\<forall>md'. fst (Assert rs) = None \<and> 65536 < app1Len_of md'
          \<longrightarrow> SetMeta rs md' = Inl ErrAPP1TooLong)"
proof -
  have ne: "md \<noteq> []"
    using assms app1Len_of_Nil by auto
  obtain a rs1 where a: "Assert rs = (a, rs1)"
    by (cases "Assert rs")
  obtain d rs2 where d: "seekToDQT_with 8 rs1 = (d, rs2)"
    by (cases "seekToDQT_with 8 rs1")
  have a': "a \<noteq> Some ErrAPP1TooLong"
    using Assert_errors [of rs] a by auto
  have d': "d \<noteq> Some ErrAPP1TooLong"
    using seekToDQT_errors [of 8 rs1] d by auto
  have eq: "SetMeta rs md =
      (case a of Some e \<Rightarrow> Inl e
       | None \<Rightarrow> (case d of Some e \<Rightarrow> Inl e
                   | None \<Rightarrow> Inr (app1_segment md @ drop (pos rs2) (data rs2))))"
    using assms by (simp add: SetMeta_def SetMeta_nonempty [OF ne] a d split: option.splits)
  have 1: "SetMeta rs md \<noteq> Inl ErrAPP1TooLong"
    using a' d' by (auto simp: eq split: option.splits)
  have 2: "bytes (app1Len_of md) 2 = Some [0x00, 0x00]"
    by (simp add: assms PutUint16_def)
  have lf: "take 2 (drop 4 (app1_segment md @ rest)) = [0x00, 0x00]" for rest
    by (simp only: length_field assms PutUint16_65536)
  have 3: "take 2 (drop 4 out) = [0x00, 0x00]" if "SetMeta rs md = Inr out" for out
  proof -
    from that have "out = app1_segment md @ drop (pos rs2) (data rs2)"
      by (auto simp: eq split: option.splits)
    then show ?thesis
      by (simp only: lf)
  qed
  have 4: "\<exists>out. SetMeta rs md = Inr out"
    if "fst (Assert rs) = None" "fst (seekToDQT (snd (Assert rs))) = None"
    using that by (simp add: eq a d seekToDQT_def)
  have 5: "SetMeta rs md' = Inl ErrAPP1TooLong"
    if "fst (Assert rs) = None" "65536 < app1Len_of md'" for md'
  proof -
    have "md' \<noteq> []"
      using that(2) app1Len_of_Nil by auto
    then show ?thesis
      using that by (simp add: SetMeta_def SetMeta_nonempty a)
  qed
  from 1 2 3 4 5 show ?thesis
    by blast
qed

theorem C9_witness:
  "app1Len_of big_meta = 65536
     \<and> SetMeta \<lparr>data = example_jpeg, pos = 0\<rparr> big_meta \<noteq> Inl ErrAPP1TooLong
     \<and> bytes (app1Len_of big_meta) 2 = Some [0x00, 0x00]
     \<and> \<not> isl (SetMeta \<lparr>data = example_jpeg, pos = 0\<rparr> big_meta)
     \<and> take 2 (drop 4 (projr (SetMeta \<lparr>data = example_jpeg, pos = 0\<rparr> big_meta))) = [0x00, 0x00]"
proof -
  let ?rs = "\<lparr>data = example_jpeg, pos = 0\<rparr>"
  have a: "fst (Assert ?rs) = None"
    by (rule example_Assert)
  have "data (snd (Assert ?rs)) = example_jpeg"
    by (simp add: Assert_data)
  then have "snd (Assert ?rs) = \<lparr>data = example_jpeg, pos = pos (snd (Assert ?rs))\<rparr>"
    by (cases "snd (Assert ?rs)") simp
  then have b: "fst (seekToDQT (snd (Assert ?rs))) = None"
    using example_seek [of "pos (snd (Assert ?rs))"] by (simp add: seekToDQT_def)
  from C9_length_65536_wraps [OF big_meta_len, of ?rs] a b
  obtain out where out: "SetMeta ?rs big_meta = Inr out" "take 2 (drop 4 out) = [0x00, 0x00]"
    by blast
  with C9_length_65536_wraps [OF big_meta_len, of ?rs] big_meta_len show ?thesis
    by simp
qed

section \<open>The scenario with one tag\<close>

lemma artist_segment:
  "app1_segment [(MetaArtist, [0x41])] =
     soi @ app1 @ [0x00, 0x26] @ exif @ tiff @ [0x00, 0x01]
       @ [0x01, 0x3B, 0x00, 0x02] @ [0x00, 0x00, 0x00, 0x02] @ [0x00, 0x00, 0x00, 0x1A]
       @ ifd0Next @ [0x41, 0x00] @ segPad"
  by (simp add: app1_segment_def app1Len_of_def ifd0_offset_def canonical_def value_blob_def
      lookup_def PutUint16_def PutUint32_def)

lemma artist_len: "app1Len_of [(MetaArtist, [0x41])] = 38"
  by (simp add: app1Len_of_def ifd0_offset_def)

text \<open>
  C1, as amended. The stream of the scenario declares an APP1 segment of length 12, which
  is ten bytes behind the length field, but lists eleven; with those eleven bytes the scan
  resumes one byte before the DQT marker and misses it. With a segment of the declared
  length (the EXIF header and four zero bytes), followed by any tail that begins with the
  DQT marker and ends with the EOI marker, and the metadata set with the artist "A",
  \<open>SetMeta\<close> succeeds and its output is: SOI, the APP1 marker, the length field 38, the
  EXIF header, the TIFF header, the entry count 1, the entry with tag code 01 3B 00 02,
  value length 2 and offset 26, the zero pointer to the next IFD, the value 41 00, two
  zero bytes of padding, and then the tail unchanged.
\<close>

theorem C1_scenario_with_fitting_segment:
  "SetMeta \<lparr>data = fitting_source (0xFF # 0xDB # mid @ [0xFF, 0xD9]), pos = p\<rparr> [(MetaArtist, [0x41])]
     = Inr (soi @ app1 @ [0x00, 0x26] @ exif @ tiff @ [0x00, 0x01]
            @ [0x01, 0x3B, 0x00, 0x02] @ [0x00, 0x00, 0x00, 0x02] @ [0x00, 0x00, 0x00, 0x1A]
            @ ifd0Next @ [0x41, 0x00] @ segPad
            @ 0xFF # 0xDB # mid @ [0xFF, 0xD9])"
proof -
  let ?tail = "0xFF # 0xDB # mid @ [0xFF, 0xD9]"
  let ?bs = "fitting_source ?tail"
  let ?rs = "\<lparr>data = ?bs, pos = p\<rparr>"
  have len: "length ?bs = 20 + length mid"
    by (simp add: fitting_source_def)
  have e: "drop (length ?bs - 2) ?bs = eoi"
  proof -
    let ?xs = "fitting_source (0xFF # 0xDB # mid)"
    have A: "drop (length ?xs) (?xs @ eoi) = eoi"
      by simp
    have B: "?xs @ eoi = ?bs"
      by (simp add: fitting_source_def eoi_def)
    have C: "length ?xs = length ?bs - 2"
      by (simp add: fitting_source_def)
    from A show ?thesis
      unfolding B C .
  qed
  have s: "take 2 ?bs = soi"
    by (simp add: fitting_source_def soi_def)
  have a: "fst (Assert ?rs) = None"
    using Assert_valid [of ?rs] s e by simp
  have sc: "scans_to 8 ?bs 16"
    using scans_skip [OF scans_start, of ?bs 8]
    by (simp add: fitting_source_def segLen_at_def Uint16_def dqt_def)
  have d: "take 2 (drop 16 ?bs) = dqt" "drop 16 ?bs = ?tail"
    by (simp_all add: fitting_source_def dqt_def)
  have "seekToDQT_with 8 (?rs\<lparr>pos := length (data ?rs)\<rparr>) = (None, ?rs\<lparr>pos := 16\<rparr>)"
    using seekToDQT_found [of 8 "?rs\<lparr>pos := length (data ?rs)\<rparr>" 16] sc d len by simp
  then have "SetMeta ?rs [(MetaArtist, [0x41])] = Inr (app1_segment [(MetaArtist, [0x41])] @ ?tail)"
    using SetMeta_scan [OF a, of "[(MetaArtist, [0x41])]" 8] d
    by (simp add: SetMeta_def artist_len)
  then show ?thesis
    by (simp only: artist_segment append_assoc)
qed

theorem C1_counterexample:
  "SetMeta \<lparr>data = listed_source example_tail, pos = 0\<rparr> [(MetaArtist, [0x41])] = Inl EOF"
proof -
  let ?bs = "listed_source example_tail"
  let ?rs = "\<lparr>data = ?bs, pos = 0\<rparr>"
  have a: "fst (Assert ?rs) = None"
    by (simp add: Assert_long listed_source_def example_tail_def soi_def eoi_def)
  have "scans_to 8 ?bs 16"
    using scans_skip [OF scans_start, of ?bs 8]
    by (simp add: listed_source_def example_tail_def segLen_at_def Uint16_def dqt_def)
  then have "scans_to 8 ?bs 56082"
    using scans_skip [of 8 ?bs 16]
    by (simp add: listed_source_def example_tail_def segLen_at_def Uint16_def dqt_def)
  then have "seekToDQT_with 8 (?rs\<lparr>pos := length (data ?rs)\<rparr>) = (Some EOF, ?rs\<lparr>pos := 56082\<rparr>)"
    using seekToDQT_eof [of 8 "?rs\<lparr>pos := length (data ?rs)\<rparr>" 56082]
    by (simp add: listed_source_def example_tail_def)
  then show ?thesis
    using SetMeta_scan [OF a, of "[(MetaArtist, [0x41])]" 8]
    by (simp add: SetMeta_def artist_len)
qed

section \<open>Canonical order and determinism\<close>

lemma inj_int_of_tag: "inj int_of_tag"
proof (rule injI)
  fix x y
  assume "int_of_tag x = int_of_tag y"
  then show "x = y"
    by (cases x; cases y) simp_all
qed

lemma canonical_sorted: "sorted (map int_of_tag (canonical md))"
  by (simp add: canonical_def)

lemma canonical_set: "set (canonical md) = fst ` set md"
  by (simp add: canonical_def)

lemma canonical_distinct: "is_map md \<Longrightarrow> distinct (canonical md)"
  by (simp add: canonical_def is_map_def)


lemma canonical_unique:
  assumes "is_map md1" "is_map md2" "set md1 = set md2"
  shows "canonical md1 = canonical md2"
proof -
  have "map int_of_tag (canonical md1) = map int_of_tag (canonical md2)"
  proof (rule sorted_distinct_set_unique)
    show "sorted (map int_of_tag (canonical md1))" "sorted (map int_of_tag (canonical md2))"
      by (rule canonical_sorted)+
    show "distinct (map int_of_tag (canonical md1))" "distinct (map int_of_tag (canonical md2))"
      using assms(1,2) inj_int_of_tag
      by (simp_all add: distinct_map canonical_distinct inj_on_def inj_def)
    show "set (map int_of_tag (canonical md1)) = set (map int_of_tag (canonical md2))"
      using assms(3) by (simp add: canonical_set)
  qed
  then show ?thesis
    using inj_int_of_tag by (simp add: inj_map_eq_map)
qed

lemma ifd_entries_lookup:
  assumes "lookup md1 = lookup md2"
  shows "ifd_entries md1 ts off = ifd_entries md2 ts off"
  by (induction ts arbitrary: off) (simp_all add: assms)

lemma map_same_pairs:
  assumes "is_map md1" "is_map md2" "set md1 = set md2"
  shows "length md1 = length md2" "lookup md1 = lookup md2"
    "(\<Sum>(t, v)\<leftarrow>md1. int (length v) + 1) = (\<Sum>(t, v)\<leftarrow>md2. int (length v) + 1)"
proof -
  have d: "distinct md1" "distinct md2"
    using assms(1,2) by (auto simp: is_map_def distinct_map)
  then show "length md1 = length md2"
    using assms(3) by (metis distinct_card)
  have "map_of md1 = map_of md2"
    using assms by (simp add: is_map_def map_of_inject_set)
  then show "lookup md1 = lookup md2"
    by (rule_tac ext) (simp add: lookup_def)
  show "(\<Sum>(t, v)\<leftarrow>md1. int (length v) + 1) = (\<Sum>(t, v)\<leftarrow>md2. int (length v) + 1)"
    using d assms(3) by (simp add: sum_list_distinct_conv_sum_set)
qed

lemma segment_same_pairs:
  assumes "is_map md1" "is_map md2" "set md1 = set md2"
  shows "app1_segment md1 = app1_segment md2" "app1Len_of md1 = app1Len_of md2"
  using map_same_pairs [OF assms] canonical_unique [OF assms]
    ifd_entries_lookup [of md1 md2]
  by (simp_all add: app1_segment_def app1Len_of_def ifd0_offset_def value_blob_def)

text \<open>
  C8. \<open>SetMeta\<close> is a function of the stream and of the pairs of the map alone: two
  maps with the same pairs, whatever the order in which \<open>range\<close> visits them, give the
  same result on the same stream, byte for byte (and two runs on the same map and stream
  give the same result, since the result is a function of them).
\<close>

theorem C8_output_independent_of_iteration_order:
  assumes "is_map md1" "is_map md2" "set md1 = set md2"
  shows "SetMeta rs md1 = SetMeta rs md2"
proof (cases "md1 = []")
  case True
  with assms(3) have "md2 = []"
    by simp
  with True show ?thesis
    by simp
next
  case False
  with assms(3) have ne: "md2 \<noteq> []"
    by auto
  show ?thesis
    unfolding SetMeta_def SetMeta_nonempty [OF False] SetMeta_nonempty [OF ne]
      segment_same_pairs [OF assms] ..
qed

theorem C8_witness:
  "is_map [(MetaTitle, [0x54]), (MetaArtist, [0x41])]
     \<and> is_map [(MetaArtist, [0x41]), (MetaTitle, [0x54])]
     \<and> set [(MetaTitle, [0x54]), (MetaArtist, [0x41])] = set [(MetaArtist, [0x41]), (MetaTitle, [0x54::byte])]
     \<and> SetMeta \<lparr>data = example_jpeg, pos = 0\<rparr> [(MetaTitle, [0x54]), (MetaArtist, [0x41])]
         = SetMeta \<lparr>data = example_jpeg, pos = 0\<rparr> [(MetaArtist, [0x41]), (MetaTitle, [0x54])]
     \<and> \<not> isl (SetMeta \<lparr>data = example_jpeg, pos = 0\<rparr> [(MetaArtist, [0x41]), (MetaTitle, [0x54])])"
proof -
  have a: "is_map [(MetaTitle, [0x54]), (MetaArtist, [0x41])]"
    and b: "is_map [(MetaArtist, [0x41]), (MetaTitle, [0x54])]"
    by (simp_all add: is_map_def)
  have c: "set [(MetaTitle, [0x54]), (MetaArtist, [0x41])] = set [(MetaArtist, [0x41]), (MetaTitle, [0x54::byte])]"
    by auto
  have "app1Len_of [(MetaArtist, [0x41]), (MetaTitle, [0x54])] \<le> 65536"
    by (simp add: app1Len_of_def ifd0_offset_def)
  then have "\<not> isl (SetMeta \<lparr>data = example_jpeg, pos = 0\<rparr> [(MetaArtist, [0x41]), (MetaTitle, [0x54])])"
    by (simp add: example_SetMeta)
  with C8_output_independent_of_iteration_order [OF a b c] a b c show ?thesis
    by simp
qed

section \<open>The layout of the written segment\<close>


lemma Uint16_PutUint16: "Uint16 (PutUint16 w) = w"
  unfolding Uint16_def PutUint16_def
  by (rule bit_word_eqI) (auto simp: bit_simps)


lemma length_Put [simp]: "length (PutUint16 v) = 2" "length (PutUint32 w) = 4"
  by (simp_all add: PutUint16_def PutUint32_def)

lemma length_tagMarker [simp]: "length (tagMarker t) = 4"
  by (cases t) simp_all

lemma length_ifd_entries [simp]: "length (ifd_entries md ts off) = 12 * length ts"
  by (induction ts arbitrary: off) simp_all





















section \<open>Offsets and entry order\<close>








end
